theory Spec2Isabelle
  imports Main
begin

section \<open>Tokens, macros and diagnostics\<close>

text \<open>
  The directive parser of \<^verbatim>\<open>compiler/preprocessor/new/DirectiveParser.cpp\<close>.
  The headers it includes (Token.h, Macro.h, Diagnostics.h, Tokenizer.h, MacroExpander.h,
  ExpressionParser.h) are not among the sources; what the parser needs of them is
  modelled below, each time with a note.
\<close>

text \<open>
  Modelled from the spec: SourceLocation (Token.h) is a file index and a line number;
  \<^verbatim>\<open>SourceLocation()\<close> is the default (empty) location.
\<close>

record SourceLocation =
  file_index :: int
  line_number :: int

definition SourceLocation0 :: SourceLocation where
  "SourceLocation0 = \<lparr>file_index = 0, line_number = 0\<rparr>"

text \<open>
  Modelled from the spec: a token has a tag (\<^verbatim>\<open>int type\<close> in the code, compared
  with character literals), a text value, a source location and the leading-whitespace
  flag read by \<^verbatim>\<open>hasLeadingSpace()\<close>.
\<close>

record Token =
  type :: int
  value_text :: string
  location :: SourceLocation
  hasLeadingSpace :: bool

text \<open>
  Modelled from the spec: the enum of Token.h is not in the sources. \<^verbatim>\<open>LAST\<close> is
  the end-of-input tag, which parseDirective tests as the literal 0; \<^verbatim>\<open>IDENTIFIER\<close>
  is a tag outside the range of the raw characters.
\<close>

definition LAST :: int where
  "LAST = 0"

definition IDENTIFIER :: int where
  "IDENTIFIER = 258"

text \<open>The character literals the parser compares tags with.\<close>

definition HASH :: int where
  "HASH = of_char (CHR ''#'')"

definition NEWLINE :: int where
  "NEWLINE = of_char (CHR 0x0A)"

definition LPAREN :: int where
  "LPAREN = of_char (CHR ''('')"

definition RPAREN :: int where
  "RPAREN = of_char (CHR '')'')"

definition COMMA :: int where
  "COMMA = of_char (CHR '','')"

lemmas tag_defs = LAST_def IDENTIFIER_def HASH_def NEWLINE_def LPAREN_def RPAREN_def COMMA_def

datatype MacroType = kTypeObj | kTypeFunc

record Macro =
  mtype :: MacroType
  name :: string
  parameters :: "string list"
  replacements :: "Token list"

type_synonym MacroSet = "string \<rightharpoonup> Macro"

text \<open>
  Modelled from the spec: \<^verbatim>\<open>Macro::equals\<close> (Macro.cpp) is not in the sources. Two
  macros are equal iff kind, parameter list and replacement tokens match exactly; tokens
  are compared field by field (\<^verbatim>\<open>Token::equals\<close>), the location included, which is why
  parseDefine resets it.
\<close>

definition equals :: "Macro \<Rightarrow> Macro \<Rightarrow> bool" where
  "equals m other =
     (mtype m = mtype other \<and> parameters m = parameters other \<and>
      replacements m = replacements other)"

text \<open>
  \<^verbatim>\<open>std::map::insert\<close>: a key that is present keeps its value.
\<close>

definition map_insert :: "MacroSet \<Rightarrow> string \<Rightarrow> Macro \<Rightarrow> MacroSet" where
  "map_insert ms k v = (case ms k of None \<Rightarrow> ms(k \<mapsto> v) | Some old \<Rightarrow> ms)"

text \<open>
  The diagnostics the parser reports, and (modelled from the spec) the other kinds of
  Diagnostics.h, which only the macro expander and the expression parser report.
\<close>

datatype DiagnosticID =
    UNEXPECTED_TOKEN_IN_DIRECTIVE
  | EOF_IN_DIRECTIVE
  | MACRO_NAME_RESERVED
  | MACRO_REDEFINED
  | CONDITIONAL_WITHOUT_IF
  | DIVISION_BY_ZERO
  | INVALID_EXPRESSION
  | USER_ERROR

record Diagnostic =
  kind :: DiagnosticID
  at :: SourceLocation
  about :: string

section \<open>The parser's state\<close>

text \<open>
  The tokenizer is the list of the tokens it still has to deliver; the macro set and the
  diagnostics are the objects the parser points to; \<open>token\<close> is the \<^verbatim>\<open>Token*\<close> every
  method writes its current token to.
\<close>

record DirectiveParser =
  mTokenizer :: "Token list"
  mMacroSet :: MacroSet
  mDiagnostics :: "Diagnostic list"
  token :: Token

text \<open>
  Modelled from the spec: \<^verbatim>\<open>Tokenizer::lex\<close> delivers the next token; once the input
  is used up it delivers the end-of-input token, every time it is asked.
\<close>

definition eof_token :: Token where
  "eof_token = \<lparr>type = LAST, value_text = [], location = SourceLocation0, hasLeadingSpace = False\<rparr>"

definition Tokenizer_lex :: "DirectiveParser \<Rightarrow> DirectiveParser" where
  "Tokenizer_lex s =
     (case mTokenizer s of
        [] \<Rightarrow> s\<lparr>token := eof_token\<rparr>
      | t # ts \<Rightarrow> s\<lparr>mTokenizer := ts, token := t\<rparr>)"

definition report :: "DiagnosticID \<Rightarrow> SourceLocation \<Rightarrow> string \<Rightarrow> DirectiveParser \<Rightarrow> DirectiveParser" where
  "report k loc txt s =
     s\<lparr>mDiagnostics := mDiagnostics s @ [\<lparr>kind = k, at = loc, about = txt\<rparr>]\<rparr>"

text \<open>
  The macro expander and the expression parser are not in the sources. A stage built on
  the tokenizer is a parameter of the model: given the macro set and the pending tokens
  it says how many tokens it pulled, what it reported and which token it left in
  \<^verbatim>\<open>*token\<close>. \<open>expression_stage\<close> stands for
  \<^verbatim>\<open>macroExpander.lex(token); expressionParser.parse(token, &expression)\<close> of parseIf,
  \<open>expander_stage\<close> for \<^verbatim>\<open>macroExpander.lex(token)\<close> of parseLine.
\<close>

record StageResult =
  pulled :: nat
  reported :: "Diagnostic list"
  left_token :: Token

type_synonym Stage = "MacroSet \<Rightarrow> Token list \<Rightarrow> StageResult"

record Externals =
  expression_stage :: Stage
  expander_stage :: Stage

definition run_stage :: "Stage \<Rightarrow> DirectiveParser \<Rightarrow> DirectiveParser" where
  "run_stage st s =
     (let r = st (mMacroSet s) (mTokenizer s) in
      s\<lparr>mTokenizer := drop (pulled r) (mTokenizer s),
        mDiagnostics := mDiagnostics s @ reported r,
        token := left_token r\<rparr>)"

section \<open>Reserved macro names\<close>

text \<open>\<^verbatim>\<open>std::string::find\<close>: the first position where the pattern starts.\<close>

fun find_str :: "string \<Rightarrow> string \<Rightarrow> nat option" where
  "find_str [] pat = (if pat = [] then Some 0 else None)"
| "find_str (c # cs) pat =
     (if take (length pat) (c # cs) = pat then Some 0
      else map_option Suc (find_str cs pat))"

definition isMacroNameReserved :: "string \<Rightarrow> bool" where
  "isMacroNameReserved nm =
     (if take 3 nm = ''GL_'' then True
      else if find_str nm ''__'' \<noteq> None then True
      else False)"

section \<open>The defined-operator filter\<close>

text \<open>\<^verbatim>\<open>DefinedParser::lex\<close> hands the call to the lexer it wraps.\<close>

definition DefinedParser_lex :: "DirectiveParser \<Rightarrow> DirectiveParser" where
  "DefinedParser_lex s = Tokenizer_lex s"

section \<open>The directive handlers\<close>

definition kDirectiveDefine :: string where "kDirectiveDefine = ''define''"
definition kDirectiveUndef :: string where "kDirectiveUndef = ''undef''"
definition kDirectiveIf :: string where "kDirectiveIf = ''if''"
definition kDirectiveIfdef :: string where "kDirectiveIfdef = ''ifdef''"
definition kDirectiveIfndef :: string where "kDirectiveIfndef = ''ifndef''"
definition kDirectiveElse :: string where "kDirectiveElse = ''else''"
definition kDirectiveElif :: string where "kDirectiveElif = ''elif''"
definition kDirectiveEndif :: string where "kDirectiveEndif = ''endif''"
definition kDirectiveError :: string where "kDirectiveError = ''error''"
definition kDirectivePragma :: string where "kDirectivePragma = ''pragma''"
definition kDirectiveExtension :: string where "kDirectiveExtension = ''extension''"
definition kDirectiveVersion :: string where "kDirectiveVersion = ''version''"
definition kDirectiveLine :: string where "kDirectiveLine = ''line''"

lemmas kDirective_defs =
  kDirectiveDefine_def kDirectiveUndef_def kDirectiveIf_def kDirectiveIfdef_def
  kDirectiveIfndef_def kDirectiveElse_def kDirectiveElif_def kDirectiveEndif_def
  kDirectiveError_def kDirectivePragma_def kDirectiveExtension_def kDirectiveVersion_def
  kDirectiveLine_def

lemma Tokenizer_lex_length: "length (mTokenizer (Tokenizer_lex s)) \<le> length (mTokenizer s)"
  by (simp add: Tokenizer_lex_def split: list.split)

lemma Tokenizer_lex_not_eof:
  "type (token (Tokenizer_lex s)) \<noteq> LAST \<Longrightarrow>
   length (mTokenizer (Tokenizer_lex s)) < length (mTokenizer s)"
  by (simp add: Tokenizer_lex_def eof_token_def split: list.splits)

text \<open>
  The parameter loop of parseDefine:
  \<^verbatim>\<open>do { lex; if (type != IDENTIFIER) break; push_back(value); lex; } while (type == ',');\<close>
\<close>

function collect_parameters :: "Macro \<times> DirectiveParser \<Rightarrow> Macro \<times> DirectiveParser" where
  "collect_parameters (macro, s) =
     (let s1 = Tokenizer_lex s in
      if type (token s1) \<noteq> IDENTIFIER then (macro, s1)
      else
        let macro1 = macro\<lparr>parameters := parameters macro @ [value_text (token s1)]\<rparr>;
            s2 = Tokenizer_lex s1
        in if type (token s2) = COMMA then collect_parameters (macro1, s2) else (macro1, s2))"
  by pat_completeness auto
termination
proof (relation "measure (\<lambda>(m, s). length (mTokenizer s))")
  show "wf (measure (\<lambda>(m, s). length (mTokenizer s)))" by simp
next
  fix macro :: Macro and s s1 macro1 s2
  assume a: "s1 = Tokenizer_lex s" "\<not> type (token s1) \<noteq> IDENTIFIER" "s2 = Tokenizer_lex s1"
  have "type (token (Tokenizer_lex s)) \<noteq> LAST" using a by (simp add: tag_defs)
  then have "length (mTokenizer s1) < length (mTokenizer s)"
    using a(1) Tokenizer_lex_not_eof by simp
  moreover have "length (mTokenizer s2) \<le> length (mTokenizer s1)"
    using a(3) Tokenizer_lex_length by simp
  ultimately show "((macro1, s2), (macro, s)) \<in> measure (\<lambda>(m, s). length (mTokenizer s))"
    by simp
qed

text \<open>
  The replacement loop of parseDefine:
  \<^verbatim>\<open>while (type != '\n' && type != LAST) { location = SourceLocation(); push_back(*token); lex; }\<close>
\<close>

function collect_replacements :: "Macro \<times> DirectiveParser \<Rightarrow> Macro \<times> DirectiveParser" where
  "collect_replacements (macro, s) =
     (if type (token s) \<noteq> NEWLINE \<and> type (token s) \<noteq> LAST then
        let s1 = s\<lparr>token := (token s)\<lparr>location := SourceLocation0\<rparr>\<rparr>;
            macro1 = macro\<lparr>replacements := replacements macro @ [token s1]\<rparr>
        in collect_replacements (macro1, Tokenizer_lex s1)
      else (macro, s))"
  by pat_completeness auto
termination
  by (relation "measure (\<lambda>(m, s). length (mTokenizer s) +
        (if type (token s) \<noteq> NEWLINE \<and> type (token s) \<noteq> LAST then 1 else 0))")
     (auto simp: Tokenizer_lex_def eof_token_def split: list.splits)

text \<open>
  The end of parseDefine: the check for a redefinition and the insertion.
\<close>

definition define_macro :: "Macro \<Rightarrow> DirectiveParser \<Rightarrow> DirectiveParser" where
  "define_macro macro s =
     (case mMacroSet s (name macro) of
        Some old \<Rightarrow>
          if \<not> equals macro old
          then report MACRO_REDEFINED (location (token s)) (name macro) s
          else s\<lparr>mMacroSet := map_insert (mMacroSet s) (name macro) macro\<rparr>
      | None \<Rightarrow> s\<lparr>mMacroSet := map_insert (mMacroSet s) (name macro) macro\<rparr>)"

text \<open>
  parseDefine up to the replacement list: the macro as parsed from the line, or the
  state in which the definition was rejected.
\<close>

definition parse_macro :: "DirectiveParser \<Rightarrow> DirectiveParser + Macro \<times> DirectiveParser" where
  "parse_macro s =
     (let s1 = Tokenizer_lex s in
      if type (token s1) \<noteq> IDENTIFIER then
        Inl (report UNEXPECTED_TOKEN_IN_DIRECTIVE (location (token s1)) (value_text (token s1)) s1)
      else if isMacroNameReserved (value_text (token s1)) then
        Inl (report MACRO_NAME_RESERVED (location (token s1)) (value_text (token s1)) s1)
      else
        let macro = \<lparr>mtype = kTypeObj, name = value_text (token s1),
                      parameters = [], replacements = []\<rparr>;
            s2 = Tokenizer_lex s1
        in
          if type (token s2) = LPAREN \<and> \<not> hasLeadingSpace (token s2) then
            let (macro3, s3) = collect_parameters (macro\<lparr>mtype := kTypeFunc\<rparr>, s2) in
            if type (token s3) \<noteq> RPAREN then
              Inl (report UNEXPECTED_TOKEN_IN_DIRECTIVE (location (token s3)) (value_text (token s3)) s3)
            else Inr (collect_replacements (macro3, s3))
          else Inr (collect_replacements (macro, s2)))"

definition parseDefine :: "DirectiveParser \<Rightarrow> DirectiveParser" where
  "parseDefine s =
     (case parse_macro s of
        Inl rejected \<Rightarrow> rejected
      | Inr (macro, s') \<Rightarrow> define_macro macro s')"

definition parseUndef :: "DirectiveParser \<Rightarrow> DirectiveParser" where
  "parseUndef s =
     (let s1 = Tokenizer_lex s in
      if type (token s1) \<noteq> IDENTIFIER then
        report UNEXPECTED_TOKEN_IN_DIRECTIVE (location (token s1)) (value_text (token s1)) s1
      else
        Tokenizer_lex (s1\<lparr>mMacroSet := (mMacroSet s1)(value_text (token s1) := None)\<rparr>))"

text \<open>
  parseIf builds the expander on a DefinedParser on the tokenizer and runs the expression
  parser; whatever the outcome, it returns without touching the parser's own state.
\<close>

definition parseIf :: "Externals \<Rightarrow> DirectiveParser \<Rightarrow> DirectiveParser" where
  "parseIf X s = run_stage (expression_stage X) s"

definition parseIfdef :: "DirectiveParser \<Rightarrow> DirectiveParser" where
  "parseIfdef s = Tokenizer_lex s"

definition parseIfndef :: "DirectiveParser \<Rightarrow> DirectiveParser" where
  "parseIfndef s = Tokenizer_lex s"

definition parseElse :: "DirectiveParser \<Rightarrow> DirectiveParser" where
  "parseElse s = Tokenizer_lex s"

definition parseElif :: "DirectiveParser \<Rightarrow> DirectiveParser" where
  "parseElif s = Tokenizer_lex s"

definition parseEndif :: "DirectiveParser \<Rightarrow> DirectiveParser" where
  "parseEndif s = Tokenizer_lex s"

definition parseError :: "DirectiveParser \<Rightarrow> DirectiveParser" where
  "parseError s = Tokenizer_lex s"

definition parsePragma :: "DirectiveParser \<Rightarrow> DirectiveParser" where
  "parsePragma s = Tokenizer_lex s"

definition parseExtension :: "DirectiveParser \<Rightarrow> DirectiveParser" where
  "parseExtension s = Tokenizer_lex s"

definition parseVersion :: "DirectiveParser \<Rightarrow> DirectiveParser" where
  "parseVersion s = Tokenizer_lex s"

definition parseLine :: "Externals \<Rightarrow> DirectiveParser \<Rightarrow> DirectiveParser" where
  "parseLine X s = run_stage (expander_stage X) s"

lemmas stub_defs =
  parseIfdef_def parseIfndef_def parseElse_def parseElif_def parseEndif_def
  parseError_def parsePragma_def parseExtension_def parseVersion_def

declare collect_parameters.simps [simp del]
declare collect_replacements.simps [simp del]

section \<open>parseDirective and lex\<close>

text \<open>
  The first part of parseDirective: the token after the \<^verbatim>\<open>#\<close> is read and, when it
  is an identifier that names a directive, that directive's handler runs.
\<close>

definition dispatch :: "Externals \<Rightarrow> DirectiveParser \<Rightarrow> DirectiveParser" where
  "dispatch X s =
     (let s1 = Tokenizer_lex s in
      if type (token s1) = IDENTIFIER then
        if value_text (token s1) = kDirectiveDefine then parseDefine s1
        else if value_text (token s1) = kDirectiveUndef then parseUndef s1
        else if value_text (token s1) = kDirectiveIf then parseIf X s1
        else if value_text (token s1) = kDirectiveIfdef then parseIfdef s1
        else if value_text (token s1) = kDirectiveIfndef then parseIfndef s1
        else if value_text (token s1) = kDirectiveElse then parseElse s1
        else if value_text (token s1) = kDirectiveElif then parseElif s1
        else if value_text (token s1) = kDirectiveEndif then parseEndif s1
        else if value_text (token s1) = kDirectiveError then parseError s1
        else if value_text (token s1) = kDirectivePragma then parsePragma s1
        else if value_text (token s1) = kDirectiveExtension then parseExtension s1
        else if value_text (token s1) = kDirectiveVersion then parseVersion s1
        else if value_text (token s1) = kDirectiveLine then parseLine X s1
        else s1
      else s1)"

text \<open>The check that follows the handler.\<close>

definition check_end :: "DirectiveParser \<Rightarrow> DirectiveParser" where
  "check_end s =
     (if type (token s) \<noteq> NEWLINE \<and> type (token s) \<noteq> 0 then
        report UNEXPECTED_TOKEN_IN_DIRECTIVE (location (token s)) (value_text (token s)) s
      else s)"

text \<open>
  The last loop of parseDirective:
  \<^verbatim>\<open>while (type != '\n') { if (type == 0) { report(EOF_IN_DIRECTIVE); break; } lex; }\<close>
\<close>

function skip_line :: "DirectiveParser \<Rightarrow> DirectiveParser" where
  "skip_line s =
     (if type (token s) \<noteq> NEWLINE then
        if type (token s) = 0 then
          report EOF_IN_DIRECTIVE (location (token s)) (value_text (token s)) s
        else skip_line (Tokenizer_lex s)
      else s)"
  by pat_completeness auto
termination
  by (relation "measure (\<lambda>s. length (mTokenizer s) +
        (if type (token s) \<noteq> NEWLINE \<and> type (token s) \<noteq> 0 then 1 else 0))")
     (auto simp: Tokenizer_lex_def eof_token_def LAST_def split: list.splits)

declare skip_line.simps [simp del]

definition parseDirective :: "Externals \<Rightarrow> DirectiveParser \<Rightarrow> DirectiveParser" where
  "parseDirective X s = skip_line (check_end (dispatch X s))"

text \<open>None of the handlers gives tokens back to the tokenizer.\<close>

lemma report_fields [simp]:
  "mTokenizer (report k loc txt s) = mTokenizer s"
  "mMacroSet (report k loc txt s) = mMacroSet s"
  "token (report k loc txt s) = token s"
  "mDiagnostics (report k loc txt s) = mDiagnostics s @ [\<lparr>kind = k, at = loc, about = txt\<rparr>]"
  by (simp_all add: report_def)

lemma Tokenizer_lex_fields [simp]:
  "mMacroSet (Tokenizer_lex s) = mMacroSet s"
  "mDiagnostics (Tokenizer_lex s) = mDiagnostics s"
  by (simp_all add: Tokenizer_lex_def split: list.split)

lemma collect_parameters_length:
  "length (mTokenizer (snd (collect_parameters ms))) \<le> length (mTokenizer (snd ms))"
proof (induction ms rule: collect_parameters.induct)
  case (1 macro s)
  let ?s1 = "Tokenizer_lex s"
  let ?s2 = "Tokenizer_lex ?s1"
  have l2: "length (mTokenizer ?s2) \<le> length (mTokenizer s)"
    using Tokenizer_lex_length [of s] Tokenizer_lex_length [of ?s1] by linarith
  show ?case
  proof (cases "type (token ?s1) \<noteq> IDENTIFIER")
    case True
    then show ?thesis
      using Tokenizer_lex_length [of s] by (subst collect_parameters.simps) (simp add: Let_def)
  next
    case notid: False
    show ?thesis
    proof (cases "type (token ?s2) = COMMA")
      case True
      have "length (mTokenizer (snd (collect_parameters
              (macro\<lparr>parameters := parameters macro @ [value_text (token ?s1)]\<rparr>, ?s2))))
            \<le> length (mTokenizer ?s2)"
        using "1.IH" [OF refl _ refl refl True] notid by simp
      then show ?thesis
        using notid True l2 by (subst collect_parameters.simps) (simp add: Let_def)
    next
      case False
      then show ?thesis
        using notid l2 by (subst collect_parameters.simps) (simp add: Let_def)
    qed
  qed
qed

lemma collect_replacements_length:
  "length (mTokenizer (snd (collect_replacements ms))) \<le> length (mTokenizer (snd ms))"
proof (induction ms rule: collect_replacements.induct)
  case (1 macro s)
  show ?case
  proof (cases "type (token s) \<noteq> NEWLINE \<and> type (token s) \<noteq> LAST")
    case True
    let ?s1 = "s\<lparr>token := (token s)\<lparr>location := SourceLocation0\<rparr>\<rparr>"
    have "length (mTokenizer (snd (collect_replacements
            (macro\<lparr>replacements := replacements macro @ [token ?s1]\<rparr>, Tokenizer_lex ?s1))))
          \<le> length (mTokenizer (Tokenizer_lex ?s1))"
      using "1.IH" [OF True refl refl] by simp
    moreover have "length (mTokenizer (Tokenizer_lex ?s1)) \<le> length (mTokenizer s)"
      using Tokenizer_lex_length [of ?s1] by simp
    ultimately show ?thesis
      using True by (subst collect_replacements.simps) (simp add: Let_def)
  next
    case False
    then show ?thesis by (subst collect_replacements.simps) auto
  qed
qed

lemma define_macro_tokenizer [simp]:
  "mTokenizer (define_macro macro s) = mTokenizer s"
  by (simp add: define_macro_def split: option.split)

lemma parseDefine_length:
  "length (mTokenizer (parseDefine s)) \<le> length (mTokenizer s)"
proof -
  let ?s1 = "Tokenizer_lex s"
  let ?s2 = "Tokenizer_lex ?s1"
  have l1: "length (mTokenizer ?s1) \<le> length (mTokenizer s)"
    by (rule Tokenizer_lex_length)
  have l2: "length (mTokenizer ?s2) \<le> length (mTokenizer s)"
    using l1 Tokenizer_lex_length [of ?s1] by linarith
  have p: "length (mTokenizer (snd (collect_parameters (m, ?s2)))) \<le> length (mTokenizer s)" for m
    using collect_parameters_length [of "(m, ?s2)"] l2 by simp
  have r: "length (mTokenizer (snd (collect_replacements (m, t)))) \<le> length (mTokenizer t)" for m t
    using collect_replacements_length [of "(m, t)"] by simp
  have rp: "length (mTokenizer (snd (collect_replacements (collect_parameters (m, ?s2)))))
              \<le> length (mTokenizer s)" for m
    using collect_replacements_length [of "collect_parameters (m, ?s2)"] p [of m] by linarith
  have r2: "length (mTokenizer (snd (collect_replacements (m, ?s2)))) \<le> length (mTokenizer s)" for m
    using r [of m ?s2] l2 by linarith
  show ?thesis
    unfolding parseDefine_def parse_macro_def Let_def
    using l1 p rp r2
    by (auto split: sum.splits prod.splits if_splits simp: split_beta)
qed

lemma parseUndef_length:
  "length (mTokenizer (parseUndef s)) \<le> length (mTokenizer s)"
proof -
  have "length (mTokenizer (Tokenizer_lex (Tokenizer_lex s\<lparr>mMacroSet := m\<rparr>)))
          \<le> length (mTokenizer s)" for m
    using Tokenizer_lex_length [of s] Tokenizer_lex_length [of "Tokenizer_lex s\<lparr>mMacroSet := m\<rparr>"]
    by simp
  then show ?thesis
    using Tokenizer_lex_length [of s] by (simp add: parseUndef_def Let_def)
qed

lemma run_stage_length:
  "length (mTokenizer (run_stage st s)) \<le> length (mTokenizer s)"
  by (simp add: run_stage_def Let_def)

lemma dispatch_length:
  "length (mTokenizer (dispatch X s)) \<le> length (mTokenizer s)"
proof -
  let ?s1 = "Tokenizer_lex s"
  have l1: "length (mTokenizer ?s1) \<le> length (mTokenizer s)"
    by (rule Tokenizer_lex_length)
  have "length (mTokenizer (dispatch X s)) \<le> length (mTokenizer ?s1)"
    unfolding dispatch_def Let_def stub_defs parseIf_def parseLine_def
    using parseDefine_length [of ?s1] parseUndef_length [of ?s1]
      run_stage_length [of _ ?s1] Tokenizer_lex_length [of ?s1]
    by simp
  then show ?thesis using l1 by linarith
qed

lemma skip_line_length:
  "length (mTokenizer (skip_line s)) \<le> length (mTokenizer s)"
proof (induction s rule: skip_line.induct)
  case (1 s)
  show ?case
  proof (cases "type (token s) \<noteq> NEWLINE \<and> type (token s) \<noteq> 0")
    case True
    then have "length (mTokenizer (skip_line (Tokenizer_lex s))) \<le> length (mTokenizer (Tokenizer_lex s))"
      using "1.IH" by simp
    then show ?thesis
      using True Tokenizer_lex_length [of s] by (subst skip_line.simps) simp
  next
    case False
    then show ?thesis by (subst skip_line.simps) auto
  qed
qed

lemma parseDirective_length:
  "length (mTokenizer (parseDirective X s)) \<le> length (mTokenizer s)"
proof -
  have "length (mTokenizer (check_end (dispatch X s))) \<le> length (mTokenizer s)"
    using dispatch_length [of X s] by (simp add: check_end_def)
  then show ?thesis
    unfolding parseDirective_def
    using skip_line_length [of "check_end (dispatch X s)"] by linarith
qed

text \<open>
  \<^verbatim>\<open>do { mTokenizer->lex(token); if (token->type == '#') parseDirective(token); }
  while (token->type == '\n');\<close>
\<close>

function DirectiveParser_lex :: "Externals \<Rightarrow> DirectiveParser \<Rightarrow> DirectiveParser" where
  "DirectiveParser_lex X s =
     (let s1 = Tokenizer_lex s;
          s2 = (if type (token s1) = HASH then parseDirective X s1 else s1)
      in if type (token s2) = NEWLINE then DirectiveParser_lex X s2 else s2)"
  by pat_completeness auto
termination
proof (relation "measure (\<lambda>(X, s). length (mTokenizer s))")
  show "wf (measure (\<lambda>(X, s). length (mTokenizer s)))" by simp
next
  fix X :: Externals and s s1 s2 :: DirectiveParser
  assume a: "s1 = Tokenizer_lex s"
    "s2 = (if type (token s1) = HASH then parseDirective X s1 else s1)"
    "type (token s2) = NEWLINE"
  have "type (token s1) \<noteq> LAST"
    using a(2,3) by (auto simp: tag_defs split: if_splits)
  then have "length (mTokenizer s1) < length (mTokenizer s)"
    using a(1) Tokenizer_lex_not_eof by simp
  moreover have "length (mTokenizer s2) \<le> length (mTokenizer s1)"
    using a(2) parseDirective_length [of X s1] by simp
  ultimately show "((X, s2), (X, s)) \<in> measure (\<lambda>(X, s). length (mTokenizer s))"
    by simp
qed

declare DirectiveParser_lex.simps [simp del]

section \<open>Notions used in the statements\<close>

text \<open>A token that is neither the end of the line nor the end of the input.\<close>

definition within_line :: "Token \<Rightarrow> bool" where
  "within_line t = (type t \<noteq> NEWLINE \<and> type t \<noteq> 0)"

text \<open>The diagnostic of a kind that is reported with a token's location and text.\<close>

definition diag :: "DiagnosticID \<Rightarrow> Token \<Rightarrow> Diagnostic" where
  "diag k t = \<lparr>kind = k, at = location t, about = value_text t\<rparr>"

definition strip_location :: "Token \<Rightarrow> Token" where
  "strip_location t = t\<lparr>location := SourceLocation0\<rparr>"

text \<open>
  What the last loop of parseDirective reports, given the tokens from the first one that
  ends the line: nothing when that is an end of line, \<^verbatim>\<open>EOF_IN_DIRECTIVE\<close> when it
  is the end of the input (delivered by the tokenizer once its tokens are used up).
\<close>

fun eof_reports :: "Token list \<Rightarrow> Diagnostic list" where
  "eof_reports [] = [diag EOF_IN_DIRECTIVE eof_token]"
| "eof_reports (t # ts) = (if type t = 0 then [diag EOF_IN_DIRECTIVE t] else [])"

text \<open>The token that ends the line, given the tokens from it on.\<close>

fun terminator :: "Token list \<Rightarrow> Token" where
  "terminator [] = eof_token"
| "terminator (t # ts) = t"

text \<open>Every replacement token of every macro of the set has the default location.\<close>

definition location_free :: "MacroSet \<Rightarrow> bool" where
  "location_free ms =
     (\<forall>m \<in> ran ms. \<forall>t \<in> set (replacements m). location t = SourceLocation0)"

text \<open>What a token is apart from its location: tag, text and leading-space flag.\<close>

definition token_content :: "Token \<Rightarrow> int \<times> string \<times> bool" where
  "token_content t = (type t, value_text t, hasLeadingSpace t)"

section \<open>Sample inputs\<close>

text \<open>
  Modelled from the spec: tags of an integer literal and of the punctuator \<^verbatim>\<open>==\<close>
  (Token.h is not in the sources); they only occur in the sample inputs.
\<close>

definition CONST_INT :: int where
  "CONST_INT = 259"

definition OP_EQ :: int where
  "OP_EQ = 264"

definition PLUS :: int where
  "PLUS = of_char (CHR ''+'')"

text \<open>A token with tag, text, line number and leading-space flag.\<close>

definition mk :: "int \<Rightarrow> string \<Rightarrow> int \<Rightarrow> bool \<Rightarrow> Token" where
  "mk ty txt ln sp =
     \<lparr>type = ty, value_text = txt, location = \<lparr>file_index = 0, line_number = ln\<rparr>,
      hasLeadingSpace = sp\<rparr>"

definition nl :: "int \<Rightarrow> Token" where
  "nl ln = mk NEWLINE [CHR 0x0A] ln False"

definition hash :: "int \<Rightarrow> Token" where
  "hash ln = mk HASH ''#'' ln False"

definition ident :: "string \<Rightarrow> int \<Rightarrow> bool \<Rightarrow> Token" where
  "ident txt ln sp = mk IDENTIFIER txt ln sp"

text \<open>A parser that has just been constructed on a tokenizer and an empty macro set.\<close>

definition start :: "Token list \<Rightarrow> DirectiveParser" where
  "start ts = \<lparr>mTokenizer = ts, mMacroSet = Map.empty, mDiagnostics = [], token = eof_token\<rparr>"

text \<open>
  Modelled from the spec: sample stages for the macro expander and the expression parser,
  which are not in the sources. \<open>line_reader\<close> reads the expression of an
  \<^verbatim>\<open>#if\<close>: it pulls the rest of the line, its end of line included, reports nothing
  and leaves the token that ends the line. \<open>token_reader\<close> pulls one token.
\<close>

definition line_reader :: Stage where
  "line_reader ms ts =
     \<lparr>pulled = Suc (length (takeWhile within_line ts)),
      reported = [],
      left_token = terminator (dropWhile within_line ts)\<rparr>"

definition token_reader :: Stage where
  "token_reader ms ts = \<lparr>pulled = 1, reported = [], left_token = terminator ts\<rparr>"

definition plain :: Externals where
  "plain = \<lparr>expression_stage = line_reader, expander_stage = token_reader\<rparr>"

text \<open>
  A macro set in which \<^verbatim>\<open>A\<close> is defined as \<^verbatim>\<open>1\<close> (by a line 1), and a parser
  with that macro set that has just read the \<^verbatim>\<open>define\<close> of a directive on line 2.
\<close>

definition macro_A :: Macro where
  "macro_A = \<lparr>mtype = kTypeObj, name = ''A'', parameters = [],
              replacements = [strip_location (mk CONST_INT ''1'' 1 True)]\<rparr>"


lemmas model_defs =
  Tokenizer_lex_def report_def run_stage_def isMacroNameReserved_def DefinedParser_lex_def
  define_macro_def parse_macro_def parseDefine_def parseUndef_def parseIf_def parseLine_def
  stub_defs dispatch_def check_end_def parseDirective_def equals_def map_insert_def
  kDirective_defs tag_defs eof_token_def SourceLocation0_def Let_def

lemmas loop_simps =
  collect_parameters.simps collect_replacements.simps skip_line.simps DirectiveParser_lex.simps

lemmas sample_defs =
  CONST_INT_def OP_EQ_def PLUS_def mk_def nl_def hash_def ident_def start_def
  line_reader_def token_reader_def plain_def within_line_def diag_def strip_location_def

section \<open>Auxiliary facts\<close>

lemma within_line_eof [simp]: "\<not> within_line eof_token"
  by (simp add: within_line_def eof_token_def LAST_def)

lemma skip_line_type:
  "type (token (skip_line s)) = NEWLINE \<or> type (token (skip_line s)) = 0"
proof (induction s rule: skip_line.induct)
  case (1 s)
  show ?case
    using "1.IH" by (subst (1 2) skip_line.simps) auto
qed

lemma skip_line_macros [simp]: "mMacroSet (skip_line s) = mMacroSet s"
proof (induction s rule: skip_line.induct)
  case (1 s)
  show ?case
    using "1.IH" by (subst skip_line.simps) auto
qed

lemma skip_line_chars:
  "token s = c \<Longrightarrow> mTokenizer s = rest \<Longrightarrow>
   mTokenizer (skip_line s) = tl (dropWhile within_line (c # rest)) \<and>
   token (skip_line s) = terminator (dropWhile within_line (c # rest)) \<and>
   mDiagnostics (skip_line s) = mDiagnostics s @ eof_reports (dropWhile within_line (c # rest))"
proof (induction rest arbitrary: s c)
  case Nil
  show ?case
  proof (cases "within_line c")
    case True
    have t: "token (Tokenizer_lex s) = eof_token" "mTokenizer (Tokenizer_lex s) = []"
      using Nil by (simp_all add: Tokenizer_lex_def)
    have "skip_line s = skip_line (Tokenizer_lex s)"
      using True Nil by (subst skip_line.simps) (auto simp: within_line_def)
    also have "\<dots> = report EOF_IN_DIRECTIVE (location eof_token) (value_text eof_token) (Tokenizer_lex s)"
      using t by (subst skip_line.simps) (auto simp: eof_token_def tag_defs)
    finally show ?thesis using True t Nil by (simp add: diag_def)
  next
    case False
    then show ?thesis using Nil
      by (subst (1 2 3) skip_line.simps) (auto simp: within_line_def diag_def tag_defs)
  qed
next
  case (Cons a rest)
  show ?case
  proof (cases "within_line c")
    case True
    have t: "token (Tokenizer_lex s) = a" "mTokenizer (Tokenizer_lex s) = rest"
      using Cons.prems by (simp_all add: Tokenizer_lex_def)
    have "skip_line s = skip_line (Tokenizer_lex s)"
      using True Cons.prems by (subst skip_line.simps) (auto simp: within_line_def)
    then show ?thesis using Cons.IH [OF t] True by simp
  next
    case False
    then show ?thesis using Cons.prems
      by (subst (1 2 3) skip_line.simps) (auto simp: within_line_def diag_def tag_defs)
  qed
qed

lemma check_end_fields [simp]:
  "mTokenizer (check_end s) = mTokenizer s"
  "token (check_end s) = token s"
  "mMacroSet (check_end s) = mMacroSet s"
  "mDiagnostics (check_end s) = mDiagnostics s @
     (if within_line (token s) then [diag UNEXPECTED_TOKEN_IN_DIRECTIVE (token s)] else [])"
  by (simp_all add: check_end_def within_line_def diag_def)

lemma parseDirective_chars:
  "mDiagnostics (parseDirective X s) =
     mDiagnostics (dispatch X s)
       @ (if within_line (token (dispatch X s))
          then [diag UNEXPECTED_TOKEN_IN_DIRECTIVE (token (dispatch X s))] else [])
       @ eof_reports (dropWhile within_line (token (dispatch X s) # mTokenizer (dispatch X s))) \<and>
   mTokenizer (parseDirective X s) =
     tl (dropWhile within_line (token (dispatch X s) # mTokenizer (dispatch X s))) \<and>
   token (parseDirective X s) =
     terminator (dropWhile within_line (token (dispatch X s) # mTokenizer (dispatch X s))) \<and>
   mMacroSet (parseDirective X s) = mMacroSet (dispatch X s)"
  using skip_line_chars [of "check_end (dispatch X s)" "token (dispatch X s)" "mTokenizer (dispatch X s)"]
  by (simp add: parseDirective_def)

lemma collect_replacements_chars:
  "token s = c \<Longrightarrow> mTokenizer s = rest \<Longrightarrow>
   fst (collect_replacements (m, s)) =
     m\<lparr>replacements := replacements m @ map strip_location (takeWhile within_line (c # rest))\<rparr> \<and>
   snd (collect_replacements (m, s)) =
     s\<lparr>mTokenizer := tl (dropWhile within_line (c # rest)),
       token := terminator (dropWhile within_line (c # rest))\<rparr>"
proof (induction rest arbitrary: s c m)
  case Nil
  show ?case
  proof (cases "within_line c")
    case True
    let ?s1 = "s\<lparr>token := (token s)\<lparr>location := SourceLocation0\<rparr>\<rparr>"
    let ?m1 = "m\<lparr>replacements := replacements m @ [token ?s1]\<rparr>"
    have t: "Tokenizer_lex ?s1 = s\<lparr>token := eof_token\<rparr>"
      using Nil by (simp add: Tokenizer_lex_def)
    have "collect_replacements (m, s) = collect_replacements (?m1, Tokenizer_lex ?s1)"
      using True Nil by (subst collect_replacements.simps) (simp add: within_line_def Let_def LAST_def)
    also have "\<dots> = (?m1, s\<lparr>token := eof_token\<rparr>)"
      unfolding t by (subst collect_replacements.simps) (simp add: eof_token_def)
    finally show ?thesis using True Nil by (simp add: strip_location_def)
  next
    case False
    then have "collect_replacements (m, s) = (m, s)"
      using Nil by (subst collect_replacements.simps) (auto simp: within_line_def LAST_def)
    then show ?thesis using False Nil by simp
  qed
next
  case (Cons a rest)
  show ?case
  proof (cases "within_line c")
    case True
    let ?s1 = "s\<lparr>token := (token s)\<lparr>location := SourceLocation0\<rparr>\<rparr>"
    let ?m1 = "m\<lparr>replacements := replacements m @ [token ?s1]\<rparr>"
    have t: "Tokenizer_lex ?s1 = s\<lparr>mTokenizer := rest, token := a\<rparr>"
      using Cons.prems by (simp add: Tokenizer_lex_def)
    have e: "collect_replacements (m, s) = collect_replacements (?m1, s\<lparr>mTokenizer := rest, token := a\<rparr>)"
      using True Cons.prems t
      by (subst collect_replacements.simps) (simp add: within_line_def Let_def LAST_def)
    show ?thesis
      unfolding e
      using Cons.IH [of "s\<lparr>mTokenizer := rest, token := a\<rparr>" a ?m1] True Cons.prems
      by (simp add: strip_location_def)
  next
    case False
    then have "collect_replacements (m, s) = (m, s)"
      using Cons.prems by (subst collect_replacements.simps) (auto simp: within_line_def LAST_def)
    then show ?thesis using False Cons.prems by simp
  qed
qed

lemma collect_parameters_frame:
  "mDiagnostics (snd (collect_parameters ms)) = mDiagnostics (snd ms) \<and>
   mMacroSet (snd (collect_parameters ms)) = mMacroSet (snd ms) \<and>
   name (fst (collect_parameters ms)) = name (fst ms) \<and>
   mtype (fst (collect_parameters ms)) = mtype (fst ms) \<and>
   replacements (fst (collect_parameters ms)) = replacements (fst ms)"
proof (induction ms rule: collect_parameters.induct)
  case (1 macro s)
  let ?s1 = "Tokenizer_lex s"
  let ?s2 = "Tokenizer_lex ?s1"
  let ?m1 = "macro\<lparr>parameters := parameters macro @ [value_text (token ?s1)]\<rparr>"
  show ?case
  proof (cases "type (token ?s1) = IDENTIFIER \<and> type (token ?s2) = COMMA")
    case True
    have "collect_parameters (macro, s) = collect_parameters (?m1, ?s2)"
      using True by (subst collect_parameters.simps) (simp add: Let_def)
    then show ?thesis
      using "1.IH" [OF refl _ refl refl] True by simp
  next
    case False
    then show ?thesis
      by (subst (1 2 3 4 5) collect_parameters.simps) (auto simp: Let_def)
  qed
qed


lemma find_str_iff: "find_str s p \<noteq> None \<longleftrightarrow> (\<exists>a b. s = a @ p @ b)"
proof (induction s)
  case Nil
  then show ?case by auto
next
  case (Cons c cs)
  have pre: "take (length p) (c # cs) = p \<longleftrightarrow> (\<exists>b. c # cs = p @ b)"
  proof
    assume "take (length p) (c # cs) = p"
    then have "c # cs = p @ drop (length p) (c # cs)"
      by (metis append_take_drop_id)
    then show "\<exists>b. c # cs = p @ b" ..
  next
    assume "\<exists>b. c # cs = p @ b"
    then show "take (length p) (c # cs) = p" by auto
  qed
  have split: "(\<exists>a b. c # cs = a @ p @ b) \<longleftrightarrow> (\<exists>b. c # cs = p @ b) \<or> (\<exists>a b. cs = a @ p @ b)"
  proof
    assume "\<exists>a b. c # cs = a @ p @ b"
    then obtain a b where ab: "c # cs = a @ p @ b" by blast
    show "(\<exists>b. c # cs = p @ b) \<or> (\<exists>a b. cs = a @ p @ b)"
    proof (cases a)
      case Nil
      then show ?thesis using ab by auto
    next
      case (Cons x a')
      then have "cs = a' @ p @ b" using ab by simp
      then show ?thesis by blast
    qed
  next
    assume "(\<exists>b. c # cs = p @ b) \<or> (\<exists>a b. cs = a @ p @ b)"
    then show "\<exists>a b. c # cs = a @ p @ b"
    proof
      assume "\<exists>b. c # cs = p @ b"
      then obtain b where "c # cs = [] @ p @ b" by auto
      then show ?thesis by blast
    next
      assume "\<exists>a b. cs = a @ p @ b"
      then obtain a b where "cs = a @ p @ b" by blast
      then have "c # cs = (c # a) @ p @ b" by simp
      then show ?thesis by blast
    qed
  qed
  show ?case
    using Cons.IH pre split by (auto simp del: take_Suc_Cons)
qed

lemma isMacroNameReserved_iff:
  "isMacroNameReserved N \<longleftrightarrow> (\<exists>r. N = ''GL_'' @ r) \<or> (\<exists>a b. N = a @ ''__'' @ b)"
proof -
  have "take 3 N = ''GL_'' \<longleftrightarrow> (\<exists>r. N = ''GL_'' @ r)"
  proof
    assume "take 3 N = ''GL_''"
    then have "N = ''GL_'' @ drop 3 N" by (metis append_take_drop_id)
    then show "\<exists>r. N = ''GL_'' @ r" ..
  next
    assume "\<exists>r. N = ''GL_'' @ r"
    then show "take 3 N = ''GL_''" by auto
  qed
  then show ?thesis
    using find_str_iff [of N "''__''"] by (auto simp: isMacroNameReserved_def)
qed

lemma collect_replacements_eq:
  "collect_replacements (m, s) =
     (m\<lparr>replacements := replacements m
          @ map strip_location (takeWhile within_line (token s # mTokenizer s))\<rparr>,
      s\<lparr>mTokenizer := tl (dropWhile within_line (token s # mTokenizer s)),
        token := terminator (dropWhile within_line (token s # mTokenizer s))\<rparr>)"
  using collect_replacements_chars [OF refl refl, of m s] by (simp add: prod_eq_iff)

lemma collect_replacements_pair:
  "collect_replacements p =
     ((fst p)\<lparr>replacements := replacements (fst p)
          @ map strip_location (takeWhile within_line (token (snd p) # mTokenizer (snd p)))\<rparr>,
      (snd p)\<lparr>mTokenizer := tl (dropWhile within_line (token (snd p) # mTokenizer (snd p))),
        token := terminator (dropWhile within_line (token (snd p) # mTokenizer (snd p)))\<rparr>)"
  by (cases p) (simp add: collect_replacements_eq)

lemma parse_macro_rejected:
  assumes "parse_macro s = Inl r"
  shows "(mDiagnostics r = mDiagnostics s @ [diag UNEXPECTED_TOKEN_IN_DIRECTIVE (token r)] \<or>
          mDiagnostics r = mDiagnostics s @ [diag MACRO_NAME_RESERVED (token r)]) \<and>
         mMacroSet r = mMacroSet s"
proof -
  let ?s1 = "Tokenizer_lex s"
  let ?s2 = "Tokenizer_lex ?s1"
  have f: "mDiagnostics (snd (collect_parameters (m, ?s2))) = mDiagnostics s \<and>
           mMacroSet (snd (collect_parameters (m, ?s2))) = mMacroSet s" for m
    using collect_parameters_frame [of "(m, ?s2)"] by simp
  show ?thesis
    using assms f
    unfolding parse_macro_def Let_def
    by (auto simp: diag_def split_beta split: if_splits)
qed

lemma parse_macro_accepted:
  assumes "parse_macro s = Inr (macro, s')"
  shows "mDiagnostics s' = mDiagnostics s \<and> mMacroSet s' = mMacroSet s \<and>
         type (token (Tokenizer_lex s)) = IDENTIFIER \<and>
         name macro = value_text (token (Tokenizer_lex s)) \<and>
         \<not> isMacroNameReserved (name macro) \<and>
         (\<forall>t \<in> set (replacements macro). location t = SourceLocation0)"
proof -
  let ?s1 = "Tokenizer_lex s"
  let ?s2 = "Tokenizer_lex ?s1"
  have f: "mDiagnostics (snd (collect_parameters (m, ?s2))) = mDiagnostics s \<and>
           mMacroSet (snd (collect_parameters (m, ?s2))) = mMacroSet s \<and>
           name (fst (collect_parameters (m, ?s2))) = name m \<and>
           replacements (fst (collect_parameters (m, ?s2))) = replacements m" for m
    using collect_parameters_frame [of "(m, ?s2)"] by simp
  show ?thesis
    using assms f
    unfolding parse_macro_def Let_def
    by (auto simp: collect_replacements_pair split_beta strip_location_def split: if_splits)
qed

lemma dispatch_define:
  "mTokenizer s = d # ts \<Longrightarrow> type d = IDENTIFIER \<Longrightarrow> value_text d = ''define'' \<Longrightarrow>
   dispatch X s = parseDefine (s\<lparr>mTokenizer := ts, token := d\<rparr>)"
  by (simp add: dispatch_def Tokenizer_lex_def kDirectiveDefine_def)


lemma eof_token_type [simp]: "type eof_token = 0"
  by (simp add: eof_token_def LAST_def)


lemma define_macro_macros:
  "mMacroSet (define_macro m s) = map_insert (mMacroSet s) (name m) m"
  by (simp add: define_macro_def map_insert_def split: option.split)

lemma location_free_insert:
  "location_free ms \<Longrightarrow> \<forall>t \<in> set (replacements m). location t = SourceLocation0 \<Longrightarrow>
   location_free (map_insert ms k m)"
  unfolding location_free_def map_insert_def
  by (auto simp: ran_def split: option.splits if_splits)

lemma location_free_erase:
  "location_free ms \<Longrightarrow> location_free (ms(k := None))"
  unfolding location_free_def by (auto simp: ran_def split: if_splits)

lemma parseDefine_location_free:
  assumes "location_free (mMacroSet s)"
  shows "location_free (mMacroSet (parseDefine s))"
proof (cases "parse_macro s")
  case (Inl r)
  then show ?thesis
    using parse_macro_rejected [OF Inl] assms by (simp add: parseDefine_def)
next
  case (Inr p)
  obtain macro s' where p: "p = (macro, s')" by (cases p)
  have acc: "mMacroSet s' = mMacroSet s"
    "\<forall>t \<in> set (replacements macro). location t = SourceLocation0"
    using parse_macro_accepted [of s macro s'] Inr p by simp_all
  show ?thesis
    using Inr p acc assms
    by (simp add: parseDefine_def define_macro_macros location_free_insert)
qed

lemma parseDefine_stores_location_free:
  assumes "mMacroSet (parseDefine s) A = Some m" and "mMacroSet s A \<noteq> Some m"
  shows "\<forall>t \<in> set (replacements m). location t = SourceLocation0"
proof (cases "parse_macro s")
  case (Inl r)
  then have "mMacroSet (parseDefine s) = mMacroSet s"
    using parse_macro_rejected [OF Inl] by (simp add: parseDefine_def)
  then show ?thesis using assms by simp
next
  case (Inr p)
  obtain macro s' where p: "p = (macro, s')" by (cases p)
  have acc: "mMacroSet s' = mMacroSet s"
    "\<forall>t \<in> set (replacements macro). location t = SourceLocation0"
    using parse_macro_accepted [of s macro s'] Inr p by simp_all
  have "mMacroSet (parseDefine s) = map_insert (mMacroSet s) (name macro) macro"
    using Inr p acc by (simp add: parseDefine_def define_macro_macros)
  then have "m = macro"
    using assms by (auto simp: map_insert_def split: option.splits if_splits)
  then show ?thesis using acc(2) by simp
qed

lemma run_stage_macros [simp]: "mMacroSet (run_stage st s) = mMacroSet s"
  by (simp add: run_stage_def Let_def)

lemma dispatch_location_free:
  assumes "location_free (mMacroSet s)"
  shows "location_free (mMacroSet (dispatch X s))"
proof -
  let ?s1 = "Tokenizer_lex s"
  have a: "location_free (mMacroSet ?s1)" using assms by simp
  have u: "location_free (mMacroSet (parseUndef ?s1))"
    using a by (simp add: parseUndef_def Let_def location_free_erase)
  show ?thesis
    unfolding dispatch_def Let_def stub_defs parseIf_def parseLine_def
    using a u parseDefine_location_free [OF a] by simp
qed

lemma parseDirective_location_free:
  "location_free (mMacroSet s) \<Longrightarrow> location_free (mMacroSet (parseDirective X s))"
  using parseDirective_chars [of X s] dispatch_location_free [of s X] by simp

lemma lex_location_free:
  "location_free (mMacroSet s) \<Longrightarrow> location_free (mMacroSet (DirectiveParser_lex X s))"
proof (induction X s rule: DirectiveParser_lex.induct)
  case (1 X s)
  let ?s1 = "Tokenizer_lex s"
  let ?s2 = "if type (token ?s1) = HASH then parseDirective X ?s1 else ?s1"
  have s2: "location_free (mMacroSet ?s2)"
    using "1.prems" parseDirective_location_free [of ?s1 X] by simp
  show ?case
  proof (cases "type (token ?s2) = NEWLINE")
    case True
    have "DirectiveParser_lex X s = DirectiveParser_lex X ?s2"
      using True by (subst DirectiveParser_lex.simps) (simp add: Let_def)
    then show ?thesis using "1.IH" [OF refl refl True s2] by simp
  next
    case False
    have "DirectiveParser_lex X s = ?s2"
      using False by (subst DirectiveParser_lex.simps) (simp add: Let_def)
    then show ?thesis using s2 by simp
  qed
qed

lemma content_determines:
  "\<forall>t \<in> set xs. location t = SourceLocation0 \<Longrightarrow> \<forall>t \<in> set ys. location t = SourceLocation0 \<Longrightarrow>
   map token_content xs = map token_content ys \<Longrightarrow> xs = ys"
proof (induction xs arbitrary: ys)
  case Nil
  then show ?case by simp
next
  case (Cons x xs)
  then obtain y ys' where ys: "ys = y # ys'" by (cases ys) auto
  have "x = y"
    using Cons.prems ys by (cases x, cases y) (simp add: token_content_def)
  moreover have "xs = ys'"
    using Cons.IH [of ys'] Cons.prems ys by simp
  ultimately show ?case using ys by simp
qed

lemma token_content_strip [simp]: "token_content (strip_location t) = token_content t"
  by (simp add: token_content_def strip_location_def)




text \<open>
  lex keeps no state between lines: a pending token that is neither \<^verbatim>\<open>#\<close> nor an end
  of line is returned as it is, whatever directives were processed before.
\<close>

lemma lex_forwards_ordinary_token:
  "mTokenizer s = t # ts \<Longrightarrow> type t \<noteq> HASH \<Longrightarrow> type t \<noteq> NEWLINE \<Longrightarrow>
   DirectiveParser_lex X s = s\<lparr>mTokenizer := ts, token := t\<rparr>"
  by (subst DirectiveParser_lex.simps) (simp add: Tokenizer_lex_def Let_def)

section \<open>The claims\<close>

text \<open>
  Claim C1, as the code has it. Let \<open>N\<close> match the reserved pattern (it starts with
  \<^verbatim>\<open>GL_\<close> or contains \<^verbatim>\<open>__\<close>) and let the directive line be
  \<^verbatim>\<open>#define N ...\<close>, whatever follows the name. Then parseDefine reports exactly one
  diagnostic, \<^verbatim>\<open>MACRO_NAME_RESERVED\<close> for \<open>N\<close>; the whole line reports that one,
  then \<^verbatim>\<open>UNEXPECTED_TOKEN_IN_DIRECTIVE\<close> for the same token (the check that follows
  the handler finds the name still pending), then \<^verbatim>\<open>EOF_IN_DIRECTIVE\<close> if the line
  ends with the input; and the macro set is unchanged, so \<open>N\<close> is not inserted.
\<close>

theorem C1_reserved_name:
  assumes res: "(\<exists>r. N = ''GL_'' @ r) \<or> (\<exists>a b. N = a @ ''__'' @ b)"
    and line: "mTokenizer s = d # n # rest"
    and d: "type d = IDENTIFIER" "value_text d = ''define''"
    and n: "type n = IDENTIFIER" "value_text n = N"
  shows "mDiagnostics (parseDefine (s\<lparr>mTokenizer := n # rest, token := d\<rparr>)) =
           mDiagnostics s @ [diag MACRO_NAME_RESERVED n] \<and>
         mDiagnostics (parseDirective X s) =
           mDiagnostics s @ [diag MACRO_NAME_RESERVED n, diag UNEXPECTED_TOKEN_IN_DIRECTIVE n]
             @ eof_reports (dropWhile within_line rest) \<and>
         mMacroSet (parseDirective X s) = mMacroSet s"
proof -
  let ?s1 = "s\<lparr>mTokenizer := n # rest, token := d\<rparr>"
  have r: "isMacroNameReserved (value_text n)"
    using res n(2) isMacroNameReserved_iff by simp
  have pd: "parseDefine ?s1 =
      report MACRO_NAME_RESERVED (location n) (value_text n) (s\<lparr>mTokenizer := rest, token := n\<rparr>)"
    using r n(1) by (simp add: parseDefine_def parse_macro_def Tokenizer_lex_def)
  have di: "dispatch X s = parseDefine ?s1"
    using line d by (rule dispatch_define)
  have w: "within_line n" using n(1) by (simp add: within_line_def tag_defs)
  show ?thesis
    using parseDirective_chars [of X s] w n(2)
    unfolding di pd by (simp add: diag_def)
qed

text \<open>The theorem at the line \<^verbatim>\<open>#define my__macro 7\<close>.\<close>

theorem C1_reserved_name_witness:
  "mDiagnostics (parseDirective plain (Tokenizer_lex (start
      [hash 1, ident ''define'' 1 False, ident ''my__macro'' 1 True,
       mk CONST_INT ''7'' 1 True, nl 1]))) =
     [diag MACRO_NAME_RESERVED (ident ''my__macro'' 1 True),
      diag UNEXPECTED_TOKEN_IN_DIRECTIVE (ident ''my__macro'' 1 True)] \<and>
   mMacroSet (parseDirective plain (Tokenizer_lex (start
      [hash 1, ident ''define'' 1 False, ident ''my__macro'' 1 True,
       mk CONST_INT ''7'' 1 True, nl 1]))) ''my__macro'' = None"
proof -
  have "''my__macro'' = ''my'' @ ''__'' @ ''macro''" by simp
  then have r: "(\<exists>r. ''my__macro'' = ''GL_'' @ r) \<or> (\<exists>a b. ''my__macro'' = a @ ''__'' @ b)"
    by blast
  show ?thesis
    using C1_reserved_name [OF r, of
        "Tokenizer_lex (start [hash 1, ident ''define'' 1 False, ident ''my__macro'' 1 True,
           mk CONST_INT ''7'' 1 True, nl 1])"
        "ident ''define'' 1 False" "ident ''my__macro'' 1 True"
        "[mk CONST_INT ''7'' 1 True, nl 1]" plain]
    by (simp add: Tokenizer_lex_def start_def ident_def mk_def nl_def hash_def tag_defs
        within_line_def CONST_INT_def)
qed

text \<open>
  Claim C1 as stated fails: the line \<^verbatim>\<open>#define GL_FOO 1\<close> reports two diagnostics,
  not exactly the \<^verbatim>\<open>MACRO_NAME_RESERVED\<close> one.
\<close>

theorem C1_counterexample:
  "mDiagnostics (parseDirective plain (Tokenizer_lex (start
      [hash 1, ident ''define'' 1 False, ident ''GL_FOO'' 1 True,
       mk CONST_INT ''1'' 1 True, nl 1]))) =
     [diag MACRO_NAME_RESERVED (ident ''GL_FOO'' 1 True),
      diag UNEXPECTED_TOKEN_IN_DIRECTIVE (ident ''GL_FOO'' 1 True)] \<and>
   mDiagnostics (parseDirective plain (Tokenizer_lex (start
      [hash 1, ident ''define'' 1 False, ident ''GL_FOO'' 1 True,
       mk CONST_INT ''1'' 1 True, nl 1]))) \<noteq>
     [diag MACRO_NAME_RESERVED (ident ''GL_FOO'' 1 True)]"
  by (simp add: model_defs loop_simps sample_defs)



text \<open>
  Claim C3 against the code. parseIf evaluates the expression and drops the value, and no
  handler keeps a conditional state (each says \<^verbatim>\<open>TODO: Implement me\<close>), so lex forwards
  the tokens of every branch. With the sample stages: on
  \<^verbatim>\<open>#if 0 / NO / #endif\<close> the first token lex returns is the identifier \<^verbatim>\<open>NO\<close>,
  where the claim has an empty output; on \<^verbatim>\<open>#if 1+1 == 2 / YES / #endif\<close> lex
  returns \<^verbatim>\<open>YES\<close> and then the end of the input, as the claim says.
\<close>

theorem C3_if_zero_forwards_its_branch:
  "token (DirectiveParser_lex plain (start
      [hash 1, ident ''if'' 1 False, mk CONST_INT ''0'' 1 True, nl 1,
       ident ''NO'' 2 False, nl 2,
       hash 3, ident ''endif'' 3 False, nl 3])) = ident ''NO'' 2 False \<and>
   token (DirectiveParser_lex plain (start
      [hash 1, ident ''if'' 1 False, mk CONST_INT ''1'' 1 True, mk PLUS ''+'' 1 False,
       mk CONST_INT ''1'' 1 False, mk OP_EQ ''=='' 1 True, mk CONST_INT ''2'' 1 True, nl 1,
       ident ''YES'' 2 False, nl 2,
       hash 3, ident ''endif'' 3 False, nl 3])) = ident ''YES'' 2 False \<and>
   token (DirectiveParser_lex plain (DirectiveParser_lex plain (start
      [hash 1, ident ''if'' 1 False, mk CONST_INT ''1'' 1 True, mk PLUS ''+'' 1 False,
       mk CONST_INT ''1'' 1 False, mk OP_EQ ''=='' 1 True, mk CONST_INT ''2'' 1 True, nl 1,
       ident ''YES'' 2 False, nl 2,
       hash 3, ident ''endif'' 3 False, nl 3]))) = eof_token"
  by (simp add: model_defs loop_simps sample_defs)

text \<open>
  Claim C4 against the code. \<^verbatim>\<open>DefinedParser::lex\<close> is a stub
  (\<^verbatim>\<open>TODO: Implement me\<close>): with \<^verbatim>\<open>A\<close> defined, on \<^verbatim>\<open>defined A\<close> it returns the
  identifier \<^verbatim>\<open>defined\<close> itself and leaves \<^verbatim>\<open>A\<close> in the tokenizer, where the
  claim has the single integer token 1.
\<close>

theorem C4_defined_is_passed_through:
  "token (DefinedParser_lex ((start [ident ''defined'' 1 True, ident ''A'' 1 True, nl 1])
      \<lparr>mMacroSet := [''A'' \<mapsto> macro_A]\<rparr>)) = ident ''defined'' 1 True \<and>
   mTokenizer (DefinedParser_lex ((start [ident ''defined'' 1 True, ident ''A'' 1 True, nl 1])
      \<lparr>mMacroSet := [''A'' \<mapsto> macro_A]\<rparr>)) = [ident ''A'' 1 True, nl 1]"
  by (simp add: DefinedParser_lex_def Tokenizer_lex_def start_def)

text \<open>
  Claim C5. After the handler of a directive has returned (the state
  \<open>dispatch X s\<close>): \<^verbatim>\<open>UNEXPECTED_TOKEN_IN_DIRECTIVE\<close> is reported for the current
  token exactly when it is neither an end of line nor the end of the input; the rest of
  the line is consumed, so that the tokenizer stands right behind the first token that
  ends the line; \<^verbatim>\<open>EOF_IN_DIRECTIVE\<close> is reported exactly when that token is the
  end of the input; nothing else is reported, the macro set is left alone, and the
  current token is that end of line (lex goes on with the next line) or end of input
  (lex returns it).
\<close>

theorem C5_directive_line_end:
  "let h = dispatch X s;
       ending = dropWhile within_line (token h # mTokenizer h);
       d = parseDirective X s
   in mDiagnostics d =
        mDiagnostics h
          @ (if within_line (token h) then [diag UNEXPECTED_TOKEN_IN_DIRECTIVE (token h)] else [])
          @ eof_reports ending
      \<and> mTokenizer d = tl ending
      \<and> token d = terminator ending
      \<and> (type (token d) = NEWLINE \<or> type (token d) = 0)
      \<and> mMacroSet d = mMacroSet h"
proof -
  have "type (token (parseDirective X s)) = NEWLINE \<or> type (token (parseDirective X s)) = 0"
    unfolding parseDirective_def by (rule skip_line_type)
  then show ?thesis
    using parseDirective_chars [of X s] by (simp add: Let_def)
qed

text \<open>
  Claim C6, as the code has it. Let the pending input be \<^verbatim>\<open>#define FOO\<close> with no end
  of line. Then lex returns, with the end-of-input token; \<^verbatim>\<open>EOF_IN_DIRECTIVE\<close> is
  the last diagnostic reported; and the object-like macro \<^verbatim>\<open>FOO\<close> with an empty
  replacement list is inserted, unless \<^verbatim>\<open>FOO\<close> was defined already (then the macro
  set is unchanged, and \<^verbatim>\<open>MACRO_REDEFINED\<close> is reported first when the earlier
  definition differs).
\<close>

theorem C6_define_at_end:
  assumes line: "mTokenizer s = [h, d, f]"
    and h: "type h = HASH"
    and d: "type d = IDENTIFIER" "value_text d = ''define''"
    and f: "type f = IDENTIFIER" "value_text f = ''FOO''"
  shows "type (token (DirectiveParser_lex X s)) = 0 \<and>
         mTokenizer (DirectiveParser_lex X s) = [] \<and>
         mMacroSet (DirectiveParser_lex X s) =
           map_insert (mMacroSet s) ''FOO''
             \<lparr>mtype = kTypeObj, name = ''FOO'', parameters = [], replacements = []\<rparr> \<and>
         mDiagnostics (DirectiveParser_lex X s) =
           mDiagnostics s
             @ (case mMacroSet s ''FOO'' of
                  None \<Rightarrow> []
                | Some old \<Rightarrow>
                    if equals \<lparr>mtype = kTypeObj, name = ''FOO'', parameters = [], replacements = []\<rparr> old
                    then []
                    else [\<lparr>kind = MACRO_REDEFINED, at = location eof_token, about = ''FOO''\<rparr>])
             @ [diag EOF_IN_DIRECTIVE eof_token]"
proof -
  let ?m = "\<lparr>mtype = kTypeObj, name = ''FOO'', parameters = [], replacements = []\<rparr>"
  let ?s1 = "s\<lparr>mTokenizer := [d, f], token := h\<rparr>"
  let ?s2 = "s\<lparr>mTokenizer := [f], token := d\<rparr>"
  let ?s4 = "s\<lparr>mTokenizer := [], token := eof_token\<rparr>"
  have nr: "\<not> isMacroNameReserved ''FOO''" by (simp add: isMacroNameReserved_def)
  have pm: "parse_macro ?s2 = Inr (?m, ?s4)"
    using f nr
    by (simp add: parse_macro_def Tokenizer_lex_def Let_def collect_replacements_eq
        eof_token_def tag_defs within_line_def)
  have di: "dispatch X ?s1 = define_macro ?m ?s4"
    using dispatch_define [of ?s1 d "[f]" X] d pm by (simp add: parseDefine_def)
  have tk: "token (define_macro ?m ?s4) = eof_token"
    by (simp add: define_macro_def split: option.split)
  have pdc: "mDiagnostics (parseDirective X ?s1) =
               mDiagnostics (define_macro ?m ?s4) @ [diag EOF_IN_DIRECTIVE eof_token]"
       "mTokenizer (parseDirective X ?s1) = []"
       "token (parseDirective X ?s1) = eof_token"
       "mMacroSet (parseDirective X ?s1) = mMacroSet (define_macro ?m ?s4)"
    using parseDirective_chars [of X ?s1] tk unfolding di by simp_all
  have lx: "DirectiveParser_lex X s = parseDirective X ?s1"
    using line h pdc(3)
    by (subst DirectiveParser_lex.simps) (simp add: Let_def Tokenizer_lex_def eof_token_def tag_defs)
  have dg: "mDiagnostics (define_macro ?m ?s4) =
      mDiagnostics s @ (case mMacroSet s ''FOO'' of None \<Rightarrow> []
         | Some old \<Rightarrow> if equals ?m old then []
            else [\<lparr>kind = MACRO_REDEFINED, at = location eof_token, about = ''FOO''\<rparr>])"
    by (simp add: define_macro_def split: option.split)
  show ?thesis
    unfolding lx using pdc dg by (simp add: define_macro_macros eof_token_def LAST_def)
qed

text \<open>The theorem at the input \<^verbatim>\<open>#define FOO\<close>, from a new parser.\<close>

theorem C6_define_at_end_witness:
  "type (token (DirectiveParser_lex plain (start
      [hash 5, ident ''define'' 5 False, ident ''FOO'' 5 True]))) = 0 \<and>
   mMacroSet (DirectiveParser_lex plain (start
      [hash 5, ident ''define'' 5 False, ident ''FOO'' 5 True])) ''FOO'' =
     Some \<lparr>mtype = kTypeObj, name = ''FOO'', parameters = [], replacements = []\<rparr> \<and>
   mDiagnostics (DirectiveParser_lex plain (start
      [hash 5, ident ''define'' 5 False, ident ''FOO'' 5 True])) =
     [diag EOF_IN_DIRECTIVE eof_token]"
  using C6_define_at_end [of "start [hash 5, ident ''define'' 5 False, ident ''FOO'' 5 True]"
      "hash 5" "ident ''define'' 5 False" "ident ''FOO'' 5 True" plain]
  by (simp add: start_def hash_def ident_def mk_def map_insert_def)

text \<open>
  Claim C6 as stated fails: after \<^verbatim>\<open>#define FOO\<close> at the end of the input the macro
  set, empty before, has an entry for \<^verbatim>\<open>FOO\<close>.
\<close>

theorem C6_counterexample:
  "mMacroSet (start [hash 1, ident ''define'' 1 False, ident ''FOO'' 1 True]) ''FOO'' = None \<and>
   mMacroSet (DirectiveParser_lex plain (start
      [hash 1, ident ''define'' 1 False, ident ''FOO'' 1 True])) ''FOO'' \<noteq> None \<and>
   mDiagnostics (DirectiveParser_lex plain (start
      [hash 1, ident ''define'' 1 False, ident ''FOO'' 1 True])) =
     [diag EOF_IN_DIRECTIVE eof_token]"
  by (simp add: model_defs loop_simps sample_defs)

text \<open>
  Claim C7. Whatever the tokens and the state, the token that lex returns to its caller
  is neither an end of line nor a \<^verbatim>\<open>#\<close>: a directive line is consumed through its
  end of line and lex pulls again. (lex is total: it always returns.)
\<close>

theorem C7_lex_returns_no_eol_no_hash:
  "type (token (DirectiveParser_lex X s)) \<noteq> NEWLINE \<and>
   type (token (DirectiveParser_lex X s)) \<noteq> HASH"
proof (induction X s rule: DirectiveParser_lex.induct)
  case (1 X s)
  let ?s1 = "Tokenizer_lex s"
  let ?s2 = "if type (token ?s1) = HASH then parseDirective X ?s1 else ?s1"
  show ?case
  proof (cases "type (token ?s2) = NEWLINE")
    case True
    have "DirectiveParser_lex X s = DirectiveParser_lex X ?s2"
      using True by (subst DirectiveParser_lex.simps) (simp add: Let_def)
    then show ?thesis using "1.IH" [OF refl refl True] by simp
  next
    case False
    have r: "DirectiveParser_lex X s = ?s2"
      using False by (subst DirectiveParser_lex.simps) (simp add: Let_def)
    have "type (token ?s2) \<noteq> HASH"
      using skip_line_type [of "check_end (dispatch X ?s1)"]
      by (auto simp: parseDirective_def tag_defs)
    then show ?thesis using False r by simp
  qed
qed

text \<open>
  Claim C8 against the code. The parameter loop leaves on the first token that is not an
  identifier and the list is accepted whenever that token is \<^verbatim>\<open>)\<close>, also right after
  a comma: \<^verbatim>\<open>#define F(a,) x\<close> is stored as a function-like macro with the one
  parameter \<^verbatim>\<open>a\<close> and nothing is reported, where the claim has a malformed list
  rejected with \<^verbatim>\<open>UNEXPECTED_TOKEN_IN_DIRECTIVE\<close>. (The \<^verbatim>\<open>)\<close> is not skipped
  before the replacement loop, so it is the first replacement token.)
\<close>

theorem C8_trailing_comma_accepted:
  "mMacroSet (DirectiveParser_lex plain (start
      [hash 1, ident ''define'' 1 False, ident ''F'' 1 True, mk LPAREN ''('' 1 False,
       ident ''a'' 1 False, mk COMMA '','' 1 False, mk RPAREN '')'' 1 False,
       ident ''x'' 1 True, nl 1])) ''F'' =
     Some \<lparr>mtype = kTypeFunc, name = ''F'', parameters = [''a''],
            replacements = [strip_location (mk RPAREN '')'' 1 False),
                            strip_location (ident ''x'' 1 True)]\<rparr> \<and>
   mDiagnostics (DirectiveParser_lex plain (start
      [hash 1, ident ''define'' 1 False, ident ''F'' 1 True, mk LPAREN ''('' 1 False,
       ident ''a'' 1 False, mk COMMA '','' 1 False, mk RPAREN '')'' 1 False,
       ident ''x'' 1 True, nl 1])) = []"
  by (simp add: model_defs loop_simps sample_defs)

text \<open>
  Claim C9. Every replacement token that is stored has the default location: lex keeps
  the macro set location-free; whatever parseDefine adds to the macro set is
  location-free; and between location-free macros \<open>equals\<close>, the comparison of the
  redefinition check, depends on kind, parameters and the replacement tokens' tag, text
  and leading-space flag only.
\<close>

theorem C9_replacements_location_free:
  "(location_free (mMacroSet s) \<longrightarrow> location_free (mMacroSet (DirectiveParser_lex X s))) \<and>
   (\<forall>A m. mMacroSet (parseDefine s) A = Some m \<and> mMacroSet s A \<noteq> Some m \<longrightarrow>
      (\<forall>t \<in> set (replacements m). location t = SourceLocation0)) \<and>
   (\<forall>m m'. (\<forall>t \<in> set (replacements m). location t = SourceLocation0) \<and>
            (\<forall>t \<in> set (replacements m'). location t = SourceLocation0) \<longrightarrow>
      equals m m' =
        (mtype m = mtype m' \<and> parameters m = parameters m' \<and>
         map token_content (replacements m) = map token_content (replacements m')))"
proof -
  have a: "location_free (mMacroSet s) \<longrightarrow> location_free (mMacroSet (DirectiveParser_lex X s))"
    using lex_location_free by blast
  have b: "\<forall>A m. mMacroSet (parseDefine s) A = Some m \<and> mMacroSet s A \<noteq> Some m \<longrightarrow>
      (\<forall>t \<in> set (replacements m). location t = SourceLocation0)"
    using parseDefine_stores_location_free by blast
  have c: "equals m m' =
        (mtype m = mtype m' \<and> parameters m = parameters m' \<and>
         map token_content (replacements m) = map token_content (replacements m'))"
    if "\<forall>t \<in> set (replacements m). location t = SourceLocation0"
      and "\<forall>t \<in> set (replacements m'). location t = SourceLocation0" for m m'
    using content_determines [OF that] by (auto simp: equals_def)
  show ?thesis using a b c by blast
qed

text \<open>The theorem at \<^verbatim>\<open>#define A 1 / x\<close>, from a new parser.\<close>

theorem C9_replacements_location_free_witness:
  "location_free (mMacroSet (DirectiveParser_lex plain (start
      [hash 3, ident ''define'' 3 False, ident ''A'' 3 True, mk CONST_INT ''1'' 3 True, nl 3,
       ident ''x'' 4 False]))) \<and>
   mMacroSet (DirectiveParser_lex plain (start
      [hash 3, ident ''define'' 3 False, ident ''A'' 3 True, mk CONST_INT ''1'' 3 True, nl 3,
       ident ''x'' 4 False])) ''A'' =
     Some \<lparr>mtype = kTypeObj, name = ''A'', parameters = [],
            replacements = [\<lparr>type = CONST_INT, value_text = ''1'', location = SourceLocation0,
                              hasLeadingSpace = True\<rparr>]\<rparr>"
proof -
  let ?s = "start [hash 3, ident ''define'' 3 False, ident ''A'' 3 True,
      mk CONST_INT ''1'' 3 True, nl 3, ident ''x'' 4 False]"
  have e: "location_free (mMacroSet ?s)"
    by (simp add: location_free_def start_def)
  have "location_free (mMacroSet (DirectiveParser_lex plain ?s))"
    using C9_replacements_location_free [of ?s plain] e by blast
  moreover have "mMacroSet (DirectiveParser_lex plain ?s) ''A'' =
     Some \<lparr>mtype = kTypeObj, name = ''A'', parameters = [],
            replacements = [\<lparr>type = CONST_INT, value_text = ''1'', location = SourceLocation0,
                              hasLeadingSpace = True\<rparr>]\<rparr>"
    by (simp add: model_defs loop_simps sample_defs)
  ultimately show ?thesis by simp
qed

text \<open>
  Claim C10, as the code has it. Let parseDefine reject the definition early (the name is
  not an identifier, the name is reserved, or the parameter list is malformed) and return
  in state \<open>r\<close>. It has reported one diagnostic, about the current token of \<open>r\<close>: the
  offending token is still pending. The check that follows the handler then reports
  \<^verbatim>\<open>UNEXPECTED_TOKEN_IN_DIRECTIVE\<close> for that same token exactly when it is neither an
  end of line nor the end of the input; the rest of the line is skipped and the macro set
  is unchanged.
\<close>

theorem C10_early_rejection:
  assumes line: "mTokenizer s = d # ts"
    and d: "type d = IDENTIFIER" "value_text d = ''define''"
    and rej: "parse_macro (s\<lparr>mTokenizer := ts, token := d\<rparr>) = Inl r"
  shows "dispatch X s = r \<and>
         (mDiagnostics r = mDiagnostics s @ [diag UNEXPECTED_TOKEN_IN_DIRECTIVE (token r)] \<or>
          mDiagnostics r = mDiagnostics s @ [diag MACRO_NAME_RESERVED (token r)]) \<and>
         mDiagnostics (parseDirective X s) =
           mDiagnostics r
             @ (if within_line (token r) then [diag UNEXPECTED_TOKEN_IN_DIRECTIVE (token r)] else [])
             @ eof_reports (dropWhile within_line (token r # mTokenizer r)) \<and>
         mMacroSet (parseDirective X s) = mMacroSet s"
proof -
  have di: "dispatch X s = r"
    using dispatch_define [OF line d] rej by (simp add: parseDefine_def)
  show ?thesis
    using parse_macro_rejected [OF rej] parseDirective_chars [of X s]
    unfolding di by simp
qed

text \<open>
  The theorem at \<^verbatim>\<open>#define GL_FOO 1\<close>: both \<^verbatim>\<open>MACRO_NAME_RESERVED\<close> and
  \<^verbatim>\<open>UNEXPECTED_TOKEN_IN_DIRECTIVE\<close>.
\<close>

theorem C10_early_rejection_witness:
  "mDiagnostics (parseDirective plain (Tokenizer_lex (start
      [hash 1, ident ''define'' 1 False, ident ''GL_FOO'' 1 True,
       mk CONST_INT ''1'' 1 True, nl 1]))) =
     [diag MACRO_NAME_RESERVED (ident ''GL_FOO'' 1 True),
      diag UNEXPECTED_TOKEN_IN_DIRECTIVE (ident ''GL_FOO'' 1 True)]"
proof -
  let ?s = "Tokenizer_lex (start [hash 1, ident ''define'' 1 False, ident ''GL_FOO'' 1 True,
       mk CONST_INT ''1'' 1 True, nl 1])"
  let ?r = "report MACRO_NAME_RESERVED (location (ident ''GL_FOO'' 1 True)) ''GL_FOO''
      (?s\<lparr>mTokenizer := [mk CONST_INT ''1'' 1 True, nl 1], token := ident ''GL_FOO'' 1 True\<rparr>)"
  have line: "mTokenizer ?s = ident ''define'' 1 False
      # [ident ''GL_FOO'' 1 True, mk CONST_INT ''1'' 1 True, nl 1]"
    by (simp add: Tokenizer_lex_def start_def)
  have d: "type (ident ''define'' 1 False) = IDENTIFIER"
      "value_text (ident ''define'' 1 False) = ''define''"
    by (simp_all add: ident_def mk_def)
  have rej: "parse_macro (?s\<lparr>mTokenizer := [ident ''GL_FOO'' 1 True, mk CONST_INT ''1'' 1 True, nl 1],
      token := ident ''define'' 1 False\<rparr>) = Inl ?r"
    by (simp add: parse_macro_def Tokenizer_lex_def isMacroNameReserved_def ident_def mk_def)
  show ?thesis
    using C10_early_rejection [OF line d rej, of plain]
    by (simp add: Tokenizer_lex_def start_def sample_defs tag_defs)
qed

text \<open>
  Claim C10 as stated fails: on \<^verbatim>\<open>#define\<close> alone on its line parseDefine rejects
  early, the offending token is the end of line and no second diagnostic is reported.
\<close>

theorem C10_counterexample:
  "isl (parse_macro (Tokenizer_lex (Tokenizer_lex (start
      [hash 1, ident ''define'' 1 False, nl 1])))) \<and>
   mDiagnostics (parseDirective plain (Tokenizer_lex (start
      [hash 1, ident ''define'' 1 False, nl 1]))) =
     [diag UNEXPECTED_TOKEN_IN_DIRECTIVE (nl 1)]"
  by (simp add: model_defs loop_simps sample_defs)

end
